theory Spec2Isabelle
  imports Complex_Main "HOL-Library.Sublist"
begin

section \<open>Route records\<close>

text \<open>
  The extractor of \<^verbatim>\<open>fastapi_auditor.py\<close> builds one dictionary per route decorator;
  the scorer adds the keys \<^verbatim>\<open>score\<close> and \<^verbatim>\<open>penalties\<close> to it. A Python \<^verbatim>\<open>str\<close> is
  modelled as a \<^typ>\<open>string\<close> with one \<^typ>\<open>char\<close> per character, so the model covers
  texts whose code points are below 256; Python integers are \<^typ>\<open>int\<close>. The keys
  \<^verbatim>\<open>method\<close> and \<^verbatim>\<open>file\<close> are the fields \<open>http_method\<close> and \<open>file_rel\<close>, since both
  names are reserved words.
\<close>

record route =
  http_method :: string
  path :: string
  file_rel :: string
  versioned :: bool
  has_response_model :: bool
  has_tags :: bool
  has_summary :: bool
  has_description :: bool
  decorator_args :: string

record scored_route = route +
  score :: int
  penalties :: "string list"

section \<open>Scoring\<close>

text \<open>
  \<^verbatim>\<open>score_route\<close> starts from 100 and an empty list, runs five \<^verbatim>\<open>if\<close> statements in
  sequence, each subtracting from the score and appending to the list, and finally
  stores \<^verbatim>\<open>max(score, 30)\<close>. The running pair (score, penalties) is threaded through
  the five steps in the order of the source.
\<close>

definition penalise :: "bool \<Rightarrow> int \<Rightarrow> string \<Rightarrow> int \<times> string list \<Rightarrow> int \<times> string list" where
  "penalise present amount msg acc =
     (if \<not> present then (fst acc - amount, snd acc @ [msg]) else acc)"

definition score_steps :: "'a route_scheme \<Rightarrow> int \<times> string list" where
  "score_steps r =
     penalise (has_description r) 5 ''Missing description= for details''
       (penalise (has_summary r) 10 ''Missing summary= for endpoint title''
         (penalise (has_tags r) 10 ''Missing tags= for OpenAPI grouping''
           (penalise (has_response_model r) 25
                ''Missing response_model (critical for typing & docs)''
             (penalise (versioned r) 20 ''Missing API versioning (e.g., /v1/, /v2/)''
               (100, [])))))"

definition score_route :: "route \<Rightarrow> scored_route" where
  "score_route r =
     (let (s, ps) = score_steps r
      in route.extend r \<lparr>score = max s 30, penalties = ps\<rparr>)"

text \<open>The same scorer with the final clamp left out, for comparison.\<close>

definition score_route_unclamped :: "route \<Rightarrow> scored_route" where
  "score_route_unclamped r =
     (let (s, ps) = score_steps r
      in route.extend r \<lparr>score = s, penalties = ps\<rparr>)"

text \<open>
  The rubric as a table, in the order of the specification: the flag that must hold,
  the penalty, and the deficiency description.
\<close>

definition rubric :: "((route \<Rightarrow> bool) \<times> int \<times> string) list" where
  "rubric =
     [(versioned, 20, ''Missing API versioning (e.g., /v1/, /v2/)''),
      (has_response_model, 25, ''Missing response_model (critical for typing & docs)''),
      (has_tags, 10, ''Missing tags= for OpenAPI grouping''),
      (has_summary, 10, ''Missing summary= for endpoint title''),
      (has_description, 5, ''Missing description= for details'')]"

definition triggered :: "route \<Rightarrow> ((route \<Rightarrow> bool) \<times> int \<times> string) list" where
  "triggered r = filter (\<lambda>rule. \<not> fst rule r) rubric"

definition penalty_sum :: "route \<Rightarrow> int" where
  "penalty_sum r = sum_list (map (\<lambda>rule. fst (snd rule)) (triggered r))"

definition flags :: "route \<Rightarrow> bool \<times> bool \<times> bool \<times> bool \<times> bool" where
  "flags r = (versioned r, has_response_model r, has_tags r, has_summary r, has_description r)"

section \<open>Character classes and string helpers\<close>

text \<open>
  The classes \<^verbatim>\<open>\s\<close>, \<^verbatim>\<open>\d\<close> and \<^verbatim>\<open>\w\<close> of Python's \<^verbatim>\<open>re\<close> on \<^verbatim>\<open>str\<close> patterns, restricted
  to code points below 256. \<^verbatim>\<open>str.strip()\<close> removes the same characters as \<^verbatim>\<open>\s\<close>
  matches. Under \<^verbatim>\<open>re.IGNORECASE\<close> an ASCII letter of a pattern matches, below 256,
  exactly its two ASCII cases.
\<close>

definition is_space :: "char \<Rightarrow> bool" where
  "is_space c = ((of_char c :: nat) \<in> {9, 10, 11, 12, 13, 28, 29, 30, 31, 32, 133, 160})"

definition is_digit :: "char \<Rightarrow> bool" where
  "is_digit c = (48 \<le> (of_char c :: nat) \<and> (of_char c :: nat) \<le> 57)"

definition is_word :: "char \<Rightarrow> bool" where
  "is_word c =
     (let n = (of_char c :: nat)
      in (48 \<le> n \<and> n \<le> 57) \<or> (65 \<le> n \<and> n \<le> 90) \<or> n = 95 \<or> (97 \<le> n \<and> n \<le> 122)
         \<or> n \<in> {170, 178, 179, 181, 185, 186, 188, 189, 190}
         \<or> (192 \<le> n \<and> n \<le> 214) \<or> (216 \<le> n \<and> n \<le> 246) \<or> (248 \<le> n \<and> n \<le> 255))"

definition is_quote :: "char \<Rightarrow> bool" where
  "is_quote c = (c = CHR 0x22 \<or> c = CHR 0x27)"

definition ascii_lower :: "char \<Rightarrow> char" where
  "ascii_lower c =
     (if 65 \<le> (of_char c :: nat) \<and> (of_char c :: nat) \<le> 90
      then char_of ((of_char c :: nat) + 32) else c)"

definition ascii_upper :: "char \<Rightarrow> char" where
  "ascii_upper c =
     (if 97 \<le> (of_char c :: nat) \<and> (of_char c :: nat) \<le> 122
      then char_of ((of_char c :: nat) - 32) else c)"

definition strip :: "string \<Rightarrow> string" where
  "strip s = rev (dropWhile is_space (rev (dropWhile is_space s)))"

text \<open>
  Python's slice \<^verbatim>\<open>xs[a:b]\<close>: a negative bound counts from the end, and both bounds
  are clamped to the sequence; the slice is empty when the upper bound is not above
  the lower one.
\<close>

definition slice_bound :: "int \<Rightarrow> int \<Rightarrow> int" where
  "slice_bound n i = (if i < 0 then max (n + i) 0 else min i n)"

definition py_slice :: "'a list \<Rightarrow> int \<Rightarrow> int \<Rightarrow> 'a list" where
  "py_slice xs a b =
     (let n = int (length xs); lo = slice_bound n a; hi = slice_bound n b
      in take (nat (hi - lo)) (drop (nat lo) xs))"

datatype py_error = IndexError | ZeroDivisionError

text \<open>\<^verbatim>\<open>content[i]\<close> for a non-negative index: it raises past the end.\<close>

definition py_getitem :: "'a list \<Rightarrow> nat \<Rightarrow> py_error + 'a" where
  "py_getitem xs i = (if i < length xs then Inr (xs ! i) else Inl IndexError)"

text \<open>
  \<^verbatim>\<open>re.search\<close>: the match at the leftmost position where the pattern matches, the
  end of the text included. A pattern is given by its matcher at the start of a text.
\<close>

fun re_search :: "(string \<Rightarrow> 'a option) \<Rightarrow> string \<Rightarrow> 'a option" where
  "re_search m [] = m []"
| "re_search m (c # cs) = (case m (c # cs) of Some v \<Rightarrow> Some v | None \<Rightarrow> re_search m cs)"

section \<open>The patterns of the extractor\<close>

text \<open>
  \<^verbatim>\<open>VERSION_PATTERN = re.compile(r"/v\d+", re.IGNORECASE)\<close>, matched at the start of
  a text: a slash, \<open>v\<close> or \<open>V\<close>, and the longest non-empty run of digits.
\<close>

definition version_at :: "string \<Rightarrow> unit option" where
  "version_at s =
     (case s of
        a # b # r \<Rightarrow>
          if a = CHR ''/'' \<and> ascii_lower b = CHR ''v'' \<and> takeWhile is_digit r \<noteq> []
          then Some () else None
      | _ \<Rightarrow> None)"

definition VERSION_PATTERN_search :: "string \<Rightarrow> bool" where
  "VERSION_PATTERN_search p = (re_search version_at p \<noteq> None)"

text \<open>
  The part \<^verbatim>\<open>["']([^"']+)["']\<close> shared by both patterns of \<^verbatim>\<open>extract_string_arg\<close>,
  matched at the start of a text; the result is group 1. The class \<^verbatim>\<open>[^"']+\<close> is
  greedy and the character after it must be a quote, so group 1 is the longest run
  of non-quote characters, and there is no match when that run is empty or reaches
  the end of the text.
\<close>

definition quoted_at :: "string \<Rightarrow> string option" where
  "quoted_at s =
     (case s of
        [] \<Rightarrow> None
      | q # r \<Rightarrow>
          if \<not> is_quote q then None
          else (let v = takeWhile (\<lambda>c. \<not> is_quote c) r;
                    r' = dropWhile (\<lambda>c. \<not> is_quote c) r
                in if v = [] then None
                   else (case r' of [] \<Rightarrow> None
                         | q' # _ \<Rightarrow> if is_quote q' then Some v else None)))"

text \<open>
  \<^verbatim>\<open>rf"{keyword}\s*=\s*[\"']([^\"']+)[\"']"\<close> at the start of a text, for a keyword
  without regular-expression metacharacters (the callers pass \<^verbatim>\<open>"path"\<close>).
\<close>

definition kw_literal_at :: "string \<Rightarrow> string \<Rightarrow> string option" where
  "kw_literal_at keyword s =
     (if \<not> prefix keyword s then None
      else (case dropWhile is_space (drop (length keyword) s) of
              [] \<Rightarrow> None
            | e # r \<Rightarrow> if e = CHR ''='' then quoted_at (dropWhile is_space r) else None))"

text \<open>\<^verbatim>\<open>r"^\s*[\"']([^\"']+)[\"']"\<close>: the anchor admits position 0 only.\<close>

definition bare_literal :: "string \<Rightarrow> string option" where
  "bare_literal s = quoted_at (dropWhile is_space s)"

definition extract_string_arg :: "string \<Rightarrow> string \<Rightarrow> string option" where
  "extract_string_arg arg_str keyword =
     (case re_search (kw_literal_at keyword) arg_str of
        Some v \<Rightarrow> Some v
      | None \<Rightarrow> if keyword = ''path'' then bare_literal arg_str else None)"

text \<open>\<^verbatim>\<open>rf"{keyword}\s*="\<close> at the start of a text, for a literal keyword.\<close>

definition kwarg_at :: "string \<Rightarrow> string \<Rightarrow> unit option" where
  "kwarg_at keyword s =
     (if \<not> prefix keyword s then None
      else (case dropWhile is_space (drop (length keyword) s) of
              [] \<Rightarrow> None
            | e # _ \<Rightarrow> if e = CHR ''='' then Some () else None))"

definition has_kwarg :: "string \<Rightarrow> string \<Rightarrow> bool" where
  "has_kwarg arg_str keyword = (re_search (kwarg_at keyword) arg_str \<noteq> None)"

text \<open>
  \<^verbatim>\<open>ROUTE_PATTERN\<close> at the start of a text; the result is group 1 (the verb as
  written) and the length of the match. \<^verbatim>\<open>\w+\<close> must take the whole run of word
  characters, since a dot has to follow it; no verb of the alternation is a prefix
  of another, so at most one alternative matches at a position.
\<close>

definition VERBS :: "string list" where
  "VERBS = [''get'', ''post'', ''put'', ''patch'', ''delete'', ''options'', ''head'',
            ''trace'', ''route'']"

definition prefix_ci :: "string \<Rightarrow> string \<Rightarrow> bool" where
  "prefix_ci v s = (length v \<le> length s \<and> map ascii_lower (take (length v) s) = v)"

definition route_match_at :: "string \<Rightarrow> (string \<times> nat) option" where
  "route_match_at s =
     (case s of
        [] \<Rightarrow> None
      | a # r \<Rightarrow>
          if a \<noteq> CHR ''@'' then None
          else (let w = takeWhile is_word r in
                if w = [] then None
                else (case dropWhile is_word r of
                        [] \<Rightarrow> None
                      | d # r2 \<Rightarrow>
                          if d \<noteq> CHR ''.'' then None
                          else (case find (\<lambda>v. prefix_ci v r2) VERBS of
                                  None \<Rightarrow> None
                                | Some v \<Rightarrow>
                                    (let r3 = drop (length v) r2;
                                         ws = takeWhile is_space r3
                                     in (case dropWhile is_space r3 of
                                           [] \<Rightarrow> None
                                         | p # _ \<Rightarrow>
                                             if p = CHR ''(''
                                             then Some (take (length v) r2,
                                                        Suc (length w) + Suc (length v)
                                                          + Suc (length ws))
                                             else None))))))"

text \<open>
  \<^verbatim>\<open>ROUTE_PATTERN.finditer(content)\<close>, from position \<open>pos\<close>: the non-overlapping matches
  from left to right, each as group 1 and \<^verbatim>\<open>match.end()\<close>. The search for the next
  match resumes at the end of the previous one.
\<close>

function route_finditer :: "string \<Rightarrow> nat \<Rightarrow> (string \<times> nat) list" where
  "route_finditer content pos =
     (if length content \<le> pos then []
      else (case route_match_at (drop pos content) of
              None \<Rightarrow> route_finditer content (Suc pos)
            | Some (g, n) \<Rightarrow> (g, pos + n) # route_finditer content (pos + Suc (n - 1))))"
  by pat_completeness auto
termination
  by (relation "measure (\<lambda>(content, pos). length content - pos)") auto

section \<open>The extractor\<close>

text \<open>
  The delimiting loop of \<^verbatim>\<open>analyze_routes\<close>:
  \<^verbatim>\<open>while i < len(content) and paren_depth > 0\<close>, with the two reads of \<^verbatim>\<open>content[i]\<close>
  and \<^verbatim>\<open>i += 1\<close>. It returns the final \<open>i\<close> and \<open>paren_depth\<close>.
\<close>

function paren_scan :: "string \<Rightarrow> nat \<Rightarrow> int \<Rightarrow> py_error + (nat \<times> int)" where
  "paren_scan content i paren_depth =
     (if i < length content \<and> paren_depth > 0 then
        (case py_getitem content i of
           Inl e \<Rightarrow> Inl e
         | Inr c \<Rightarrow>
             if c = CHR ''('' then paren_scan content (i + 1) (paren_depth + 1)
             else if c = CHR '')'' then paren_scan content (i + 1) (paren_depth - 1)
             else paren_scan content (i + 1) paren_depth)
      else Inr (i, paren_depth))"
  by pat_completeness auto
termination
  by (relation "measure (\<lambda>(content, i, paren_depth). length content - i)") auto

text \<open>\<^verbatim>\<open>decorator_args = content[arg_start:i-1].strip()\<close> after the loop.\<close>

definition extract_decorator_args :: "string \<Rightarrow> nat \<Rightarrow> py_error + string" where
  "extract_decorator_args content start_pos =
     (case paren_scan content start_pos 1 of
        Inl e \<Rightarrow> Inl e
      | Inr (i, paren_depth) \<Rightarrow> Inr (strip (py_slice content (int start_pos) (int i - 1))))"

definition resolve_path :: "string \<Rightarrow> string" where
  "resolve_path args =
     (case extract_string_arg args ''path'' of
        None \<Rightarrow> ''UNKNOWN''
      | Some p \<Rightarrow> if p = [] then ''UNKNOWN'' else p)"

text \<open>The body of the loop over the matches: one dictionary per match.\<close>

definition route_of_match :: "string \<Rightarrow> string \<Rightarrow> string \<times> nat \<Rightarrow> py_error + route" where
  "route_of_match file_path content m =
     (case extract_decorator_args content (snd m) of
        Inl e \<Rightarrow> Inl e
      | Inr args \<Rightarrow>
          (let p = resolve_path args
           in Inr \<lparr>http_method = map ascii_upper (fst m),
                   path = p,
                   file_rel = file_path,
                   versioned = VERSION_PATTERN_search p,
                   has_response_model = has_kwarg args ''response_model'',
                   has_tags = has_kwarg args ''tags'',
                   has_summary = has_kwarg args ''summary'',
                   has_description = has_kwarg args ''description'',
                   decorator_args = args\<rparr>))"

fun collect_routes :: "string \<Rightarrow> string \<Rightarrow> (string \<times> nat) list \<Rightarrow> py_error + route list" where
  "collect_routes file_path content [] = Inr []"
| "collect_routes file_path content (m # ms) =
     (case route_of_match file_path content m of
        Inl e \<Rightarrow> Inl e
      | Inr r \<Rightarrow> (case collect_routes file_path content ms of
                    Inl e \<Rightarrow> Inl e
                  | Inr rs \<Rightarrow> Inr (r # rs)))"

definition analyze_content :: "string \<Rightarrow> string \<Rightarrow> py_error + route list" where
  "analyze_content file_path content =
     collect_routes file_path content (route_finditer content 0)"


section \<open>The patterns in words\<close>

definition leftmost :: "(string \<Rightarrow> 'a option) \<Rightarrow> string \<Rightarrow> nat \<Rightarrow> 'a \<Rightarrow> bool" where
  "leftmost m s n v = (n \<le> length s \<and> m (drop n s) = Some v \<and> (\<forall>k < n. m (drop k s) = None))"

definition version_segment :: "string \<Rightarrow> bool" where
  "version_segment s =
     (\<exists>b ds rest. s = CHR ''/'' # b # ds @ rest \<and> (b = CHR ''v'' \<or> b = CHR ''V'')
        \<and> ds \<noteq> [] \<and> list_all is_digit ds)"

definition kwarg_token :: "string \<Rightarrow> string \<Rightarrow> bool" where
  "kwarg_token keyword s =
     (\<exists>ws rest. s = keyword @ ws @ CHR ''='' # rest \<and> list_all is_space ws)"

definition quoted_literal :: "string \<Rightarrow> string \<Rightarrow> bool" where
  "quoted_literal s v =
     (\<exists>q q' rest. s = q # v @ q' # rest \<and> is_quote q \<and> is_quote q' \<and> v \<noteq> []
        \<and> list_all (\<lambda>c. \<not> is_quote c) v)"

definition kw_assignment :: "string \<Rightarrow> string \<Rightarrow> string \<Rightarrow> bool" where
  "kw_assignment keyword s v =
     (\<exists>ws1 ws2 t. s = keyword @ ws1 @ CHR ''='' # ws2 @ t \<and> list_all is_space ws1
        \<and> list_all is_space ws2 \<and> quoted_literal t v)"

definition leading_literal :: "string \<Rightarrow> string \<Rightarrow> bool" where
  "leading_literal s v = (\<exists>ws t. s = ws @ t \<and> list_all is_space ws \<and> quoted_literal t v)"

declare paren_scan.simps [simp del] route_finditer.simps [simp del]

definition balance :: "string \<Rightarrow> int" where
  "balance s = int (length (filter (\<lambda>c. c = CHR ''('') s))
               - int (length (filter (\<lambda>c. c = CHR '')'') s))"

definition balanced_body :: "string \<Rightarrow> bool" where
  "balanced_body body =
     (balance body = 0 \<and> list_all (\<lambda>n. 0 \<le> balance (take n body)) [0..<length body])"

definition never_closes :: "string \<Rightarrow> bool" where
  "never_closes body = list_all (\<lambda>n. 0 \<le> balance (take n body)) [0..<Suc (length body)]"

definition has_version_segment :: "string \<Rightarrow> bool" where
  "has_version_segment p = (\<exists>pre post. p = pre @ post \<and> version_segment post)"

definition kwarg_token_in :: "string \<Rightarrow> string \<Rightarrow> bool" where
  "kwarg_token_in keyword s = (\<exists>pre post. s = pre @ post \<and> kwarg_token keyword post)"

text \<open>
  The keyword pattern occurs at offset \<open>n\<close> of the argument text with value \<open>v\<close>, and
  it occurs somewhere in the argument text.
\<close>

definition path_keyword_at :: "string \<Rightarrow> nat \<Rightarrow> string \<Rightarrow> bool" where
  "path_keyword_at args n v = (n \<le> length args \<and> kw_assignment ''path'' (drop n args) v)"

definition path_keyword_in :: "string \<Rightarrow> bool" where
  "path_keyword_in args = (\<exists>n v. path_keyword_at args n v)"

text \<open>
  A keyword argument whose name is exactly \<^verbatim>\<open>path\<close>: the assignment does not continue
  a longer name.
\<close>

definition named_path_keyword_at :: "string \<Rightarrow> nat \<Rightarrow> string \<Rightarrow> bool" where
  "named_path_keyword_at args n v =
     (path_keyword_at args n v \<and> (n = 0 \<or> \<not> is_word (args ! (n - 1))))"

definition named_path_keyword_in :: "string \<Rightarrow> bool" where
  "named_path_keyword_in args = (\<exists>n v. named_path_keyword_at args n v)"

section \<open>The command\<close>

text \<open>The exit codes of the tool.\<close>

definition EXIT_OK :: int where "EXIT_OK = 0"
definition EXIT_SCORE_BELOW_THRESHOLD :: int where "EXIT_SCORE_BELOW_THRESHOLD = 1"





section \<open>Sample inputs\<close>



definition demo_route :: route where
  "demo_route = \<lparr>http_method = ''GET'', path = ''/v2/orders'', file_rel = ''main.py'',
     versioned = True, has_response_model = True, has_tags = True, has_summary = False,
     has_description = False, decorator_args = ''x''\<rparr>"

section \<open>Properties of the scorer\<close>

lemma score_steps_rubric:
  "score_steps r = (100 - penalty_sum r, map (\<lambda>rule. snd (snd rule)) (triggered r))"
  by (simp add: score_steps_def penalise_def penalty_sum_def triggered_def rubric_def)

lemma penalty_sum_bounds: "0 \<le> penalty_sum r \<and> penalty_sum r \<le> 70"
  by (simp add: penalty_sum_def triggered_def rubric_def)

lemma score_route_score: "score (score_route r) = max (100 - penalty_sum r) 30"
  by (simp add: score_route_def score_steps_rubric route.extend_def)

lemma score_route_penalties:
  "penalties (score_route r) = map (\<lambda>rule. snd (snd rule)) (triggered r)"
  by (simp add: score_route_def score_steps_rubric route.extend_def)

lemma penalty_sum_flags: "flags r = flags r' \<Longrightarrow> penalty_sum r = penalty_sum r'"
  by (simp add: flags_def penalty_sum_def triggered_def rubric_def)

section \<open>Properties of the patterns\<close>

lemma re_search_None: "re_search m s = None \<longleftrightarrow> (\<forall>k \<le> length s. m (drop k s) = None)"
proof (induction s)
  case Nil
  then show ?case by simp
next
  case (Cons c cs)
  have split: "(\<forall>k \<le> length (c # cs). m (drop k (c # cs)) = None) \<longleftrightarrow>
        m (c # cs) = None \<and> (\<forall>k \<le> length cs. m (drop k cs) = None)"
    by (simp add: All_less_Suc2 le_Suc_eq all_conj_distrib less_Suc_eq_le[symmetric])
  show ?case
    unfolding split using Cons.IH by (cases "m (c # cs)") simp_all
qed

lemma leftmost_Cons:
  "leftmost m (c # cs) n v \<longleftrightarrow>
     (n = 0 \<and> m (c # cs) = Some v) \<or>
     (m (c # cs) = None \<and> (\<exists>j. n = Suc j \<and> leftmost m cs j v))"
proof (cases n)
  case 0
  then show ?thesis by (simp add: leftmost_def)
next
  case (Suc j)
  have "(\<forall>k < Suc j. m (drop k (c # cs)) = None) \<longleftrightarrow>
        m (c # cs) = None \<and> (\<forall>k < j. m (drop k cs) = None)"
    by (simp add: All_less_Suc2)
  with Suc show ?thesis by (auto simp: leftmost_def)
qed

lemma re_search_Some: "re_search m s = Some v \<longleftrightarrow> (\<exists>n. leftmost m s n v)"
proof (induction s)
  case Nil
  then show ?case by (simp add: leftmost_def)
next
  case (Cons c cs)
  show ?case
  proof (cases "m (c # cs)")
    case None
    then show ?thesis using Cons.IH by (simp add: leftmost_Cons)
  next
    case (Some u)
    then show ?thesis by (auto simp: leftmost_Cons)
  qed
qed

lemma lower_arith:
  "(if 65 \<le> n \<and> n \<le> (90::nat) then n + 32 else n) = 118 \<longleftrightarrow> n = 118 \<or> n = 86"
  by presburger

lemma of_char_ascii_lower:
  "(of_char (ascii_lower c) :: nat) =
     (if 65 \<le> (of_char c :: nat) \<and> (of_char c :: nat) \<le> 90 then of_char c + 32 else of_char c)"
  by (simp add: ascii_lower_def)

lemma ascii_lower_v: "ascii_lower b = CHR ''v'' \<longleftrightarrow> b = CHR ''v'' \<or> b = CHR ''V''"
proof -
  have v: "(of_char (CHR ''v'') :: nat) = 118" and V: "(of_char (CHR ''V'') :: nat) = 86"
    by simp_all
  have "ascii_lower b = CHR ''v'' \<longleftrightarrow> (of_char (ascii_lower b) :: nat) = of_char (CHR ''v'')"
    by (simp only: of_char_eq_iff)
  also have "\<dots> \<longleftrightarrow> (of_char b :: nat) = 118 \<or> (of_char b :: nat) = 86"
    by (simp only: of_char_ascii_lower v lower_arith)
  also have "\<dots> \<longleftrightarrow> (of_char b :: nat) = of_char (CHR ''v'') \<or> (of_char b :: nat) = of_char (CHR ''V'')"
    by (simp only: v V)
  also have "\<dots> \<longleftrightarrow> b = CHR ''v'' \<or> b = CHR ''V''"
    by (simp only: of_char_eq_iff)
  finally show ?thesis .
qed

lemma re_search_exists:
  "re_search m s \<noteq> None \<longleftrightarrow> (\<exists>pre post. s = pre @ post \<and> m post \<noteq> None)"
proof (induction s)
  case Nil
  show ?case by simp
next
  case (Cons c cs)
  have split: "(\<exists>pre post. c # cs = pre @ post \<and> m post \<noteq> None) \<longleftrightarrow>
      m (c # cs) \<noteq> None \<or> (\<exists>pre post. cs = pre @ post \<and> m post \<noteq> None)"
  proof
    assume "\<exists>pre post. c # cs = pre @ post \<and> m post \<noteq> None"
    then obtain pre post where p: "c # cs = pre @ post" and mp: "m post \<noteq> None" by blast
    show "m (c # cs) \<noteq> None \<or> (\<exists>pre post. cs = pre @ post \<and> m post \<noteq> None)"
    proof (cases pre)
      case Nil
      with p mp show ?thesis by simp
    next
      case (Cons a pre')
      with p have "cs = pre' @ post" by simp
      with mp show ?thesis by blast
    qed
  next
    assume "m (c # cs) \<noteq> None \<or> (\<exists>pre post. cs = pre @ post \<and> m post \<noteq> None)"
    then show "\<exists>pre post. c # cs = pre @ post \<and> m post \<noteq> None"
    proof
      assume "m (c # cs) \<noteq> None"
      then have "c # cs = [] @ (c # cs) \<and> m (c # cs) \<noteq> None" by simp
      then show ?thesis by blast
    next
      assume "\<exists>pre post. cs = pre @ post \<and> m post \<noteq> None"
      then obtain pre post where "cs = pre @ post" "m post \<noteq> None" by blast
      then have "c # cs = (c # pre) @ post \<and> m post \<noteq> None" by simp
      then show ?thesis by blast
    qed
  qed
  show ?case
    unfolding split using Cons.IH by (cases "m (c # cs)") simp_all
qed

lemma takeWhile_all: "list_all P (takeWhile P xs)"
  by (induction xs) simp_all

lemma dropWhile_all_append: "list_all P ws \<Longrightarrow> dropWhile P (ws @ ys) = dropWhile P ys"
  by (induction ws) simp_all

lemma takeWhile_all_append: "list_all P ws \<Longrightarrow> takeWhile P (ws @ ys) = ws @ takeWhile P ys"
  by (induction ws) simp_all

lemma not_space_eq: "\<not> is_space (CHR ''='')"
  by (simp add: is_space_def)

lemma not_space_quote: "is_quote q \<Longrightarrow> \<not> is_space q"
  by (auto simp: is_space_def is_quote_def)

lemma version_at_iff: "version_at s \<noteq> None \<longleftrightarrow> version_segment s"
proof
  assume h: "version_at s \<noteq> None"
  then obtain a b r where s: "s = a # b # r"
    by (cases s; cases "tl s") (auto simp: version_at_def)
  from h s have a: "a = CHR ''/''" and b: "ascii_lower b = CHR ''v''"
    and d: "takeWhile is_digit r \<noteq> []"
    by (auto simp: version_at_def split: if_splits)
  have "r = takeWhile is_digit r @ dropWhile is_digit r" by simp
  with s a have "s = CHR ''/'' # b # takeWhile is_digit r @ dropWhile is_digit r" by simp
  with b d show "version_segment s"
    unfolding version_segment_def ascii_lower_v using takeWhile_all [of is_digit r] by blast
next
  assume "version_segment s"
  then obtain b ds rest where s: "s = CHR ''/'' # b # ds @ rest"
    and b: "b = CHR ''v'' \<or> b = CHR ''V''" and d: "ds \<noteq> []" "list_all is_digit ds"
    unfolding version_segment_def by blast
  from d have "takeWhile is_digit (ds @ rest) \<noteq> []"
    by (simp add: takeWhile_all_append)
  with s b show "version_at s \<noteq> None"
    by (auto simp: version_at_def ascii_lower_v)
qed

lemma kwarg_at_iff: "kwarg_at keyword s \<noteq> None \<longleftrightarrow> kwarg_token keyword s"
proof
  assume h: "kwarg_at keyword s \<noteq> None"
  then have "prefix keyword s" by (auto simp: kwarg_at_def split: if_splits)
  then obtain t where s: "s = keyword @ t" by (auto simp: prefix_def)
  with h obtain r where r: "dropWhile is_space t = CHR ''='' # r"
    by (auto simp: kwarg_at_def split: if_splits list.splits)
  have "t = takeWhile is_space t @ dropWhile is_space t" by simp
  with r s have "s = keyword @ takeWhile is_space t @ CHR ''='' # r" by simp
  then show "kwarg_token keyword s"
    unfolding kwarg_token_def using takeWhile_all [of is_space t] by blast
next
  assume "kwarg_token keyword s"
  then obtain ws rest where s: "s = keyword @ ws @ CHR ''='' # rest" and w: "list_all is_space ws"
    unfolding kwarg_token_def by blast
  from w have "dropWhile is_space (ws @ CHR ''='' # rest) = CHR ''='' # rest"
    by (simp add: dropWhile_all_append not_space_eq)
  with s show "kwarg_at keyword s \<noteq> None"
    by (simp add: kwarg_at_def)
qed

lemma quoted_at_iff: "quoted_at s = Some v \<longleftrightarrow> quoted_literal s v"
proof
  assume h: "quoted_at s = Some v"
  then obtain q r where s: "s = q # r" and q: "is_quote q"
    by (cases s) (auto simp: quoted_at_def split: if_splits)
  let ?nq = "\<lambda>c. \<not> is_quote c"
  from h s q have v: "v = takeWhile ?nq r" "v \<noteq> []"
    by (auto simp: quoted_at_def Let_def split: if_splits list.splits)
  from h s q obtain q' rest where r': "dropWhile ?nq r = q' # rest" "is_quote q'"
    by (auto simp: quoted_at_def Let_def split: if_splits list.splits)
  have "r = takeWhile ?nq r @ dropWhile ?nq r" by simp
  with r' v s have "s = q # v @ q' # rest" by simp
  with q r' v show "quoted_literal s v"
    unfolding quoted_literal_def using takeWhile_all [of ?nq r] by blast
next
  assume "quoted_literal s v"
  then obtain q q' rest where s: "s = q # v @ q' # rest" and q: "is_quote q" "is_quote q'"
    and v: "v \<noteq> []" "list_all (\<lambda>c. \<not> is_quote c) v"
    unfolding quoted_literal_def by blast
  from v q have "takeWhile (\<lambda>c. \<not> is_quote c) (v @ q' # rest) = v"
    "dropWhile (\<lambda>c. \<not> is_quote c) (v @ q' # rest) = q' # rest"
    by (simp_all add: takeWhile_all_append dropWhile_all_append)
  with s q v show "quoted_at s = Some v"
    by (simp add: quoted_at_def)
qed

lemma quoted_literal_not_space: "quoted_literal t v \<Longrightarrow> dropWhile is_space t = t"
  by (auto simp: quoted_literal_def not_space_quote)

lemma kw_literal_at_iff: "kw_literal_at keyword s = Some v \<longleftrightarrow> kw_assignment keyword s v"
proof
  assume h: "kw_literal_at keyword s = Some v"
  then have "prefix keyword s" by (auto simp: kw_literal_at_def split: if_splits)
  then obtain t where s: "s = keyword @ t" by (auto simp: prefix_def)
  with h obtain r where r: "dropWhile is_space t = CHR ''='' # r"
    and qa: "quoted_at (dropWhile is_space r) = Some v"
    by (auto simp: kw_literal_at_def split: if_splits list.splits)
  have "t = takeWhile is_space t @ dropWhile is_space t"
    "r = takeWhile is_space r @ dropWhile is_space r" by simp_all
  with r s have "s = keyword @ takeWhile is_space t @ CHR ''='' # takeWhile is_space r
                      @ dropWhile is_space r"
    by simp
  with qa show "kw_assignment keyword s v"
    unfolding kw_assignment_def quoted_at_iff
    using takeWhile_all [of is_space t] takeWhile_all [of is_space r] by blast
next
  assume "kw_assignment keyword s v"
  then obtain ws1 ws2 t where s: "s = keyword @ ws1 @ CHR ''='' # ws2 @ t"
    and w: "list_all is_space ws1" "list_all is_space ws2" and t: "quoted_literal t v"
    unfolding kw_assignment_def by blast
  from w have "dropWhile is_space (ws1 @ CHR ''='' # ws2 @ t) = CHR ''='' # ws2 @ t"
    by (simp add: dropWhile_all_append not_space_eq)
  moreover from w have "dropWhile is_space (ws2 @ t) = t"
    using quoted_literal_not_space [OF t] by (simp add: dropWhile_all_append)
  ultimately show "kw_literal_at keyword s = Some v"
    using s t by (simp add: kw_literal_at_def quoted_at_iff)
qed

lemma bare_literal_iff: "bare_literal s = Some v \<longleftrightarrow> leading_literal s v"
proof
  assume "bare_literal s = Some v"
  then have "quoted_literal (dropWhile is_space s) v"
    by (simp add: bare_literal_def quoted_at_iff)
  moreover have "s = takeWhile is_space s @ dropWhile is_space s" by simp
  ultimately show "leading_literal s v"
    unfolding leading_literal_def using takeWhile_all [of is_space s] by blast
next
  assume "leading_literal s v"
  then obtain ws t where s: "s = ws @ t" and w: "list_all is_space ws" and t: "quoted_literal t v"
    unfolding leading_literal_def by blast
  then have "dropWhile is_space s = t"
    using quoted_literal_not_space [OF t] by (simp add: dropWhile_all_append)
  with t show "bare_literal s = Some v"
    by (simp add: bare_literal_def quoted_at_iff)
qed

lemma balance_Nil: "balance [] = 0"
  by (simp add: balance_def)

lemma balance_Cons: "balance (c # cs) = balance [c] + balance cs"
  by (simp add: balance_def)

lemma paren_scan_step:
  "i < length content \<Longrightarrow> 0 < d \<Longrightarrow>
   paren_scan content i d = paren_scan content (Suc i) (d + balance [content ! i])"
  by (subst paren_scan.simps) (simp add: py_getitem_def balance_def)

lemma paren_scan_stop:
  "\<not> (i < length content \<and> 0 < d) \<Longrightarrow> paren_scan content i d = Inr (i, d)"
  by (subst paren_scan.simps) auto

lemma paren_scan_total:
  "\<exists>i' d'. paren_scan content i d = Inr (i', d') \<and> i \<le> i' \<and> (i' \<le> length content \<or> i' = i)"
proof (induction "length content - i" arbitrary: i d)
  case 0
  then have "\<not> (i < length content \<and> 0 < d)" by simp
  then show ?case by (simp add: paren_scan_stop)
next
  case (Suc k)
  show ?case
  proof (cases "i < length content \<and> 0 < d")
    case False
    then show ?thesis by (simp add: paren_scan_stop)
  next
    case True
    from Suc.hyps(2) have "k = length content - Suc i" by simp
    from Suc.hyps(1) [OF this, of "d + balance [content ! i]"]
    obtain i' d' where r: "paren_scan content (Suc i) (d + balance [content ! i]) = Inr (i', d')"
      "Suc i \<le> i'" "i' \<le> length content \<or> i' = Suc i" by blast
    from True have "paren_scan content i d = Inr (i', d')"
      by (simp add: paren_scan_step r(1))
    moreover from r(2) have "i \<le> i'" by simp
    moreover from r(3) True have "i' \<le> length content" by auto
    ultimately show ?thesis by blast
  qed
qed

lemma scan_through:
  "(\<forall>n < length body. 0 < d + balance (take n body)) \<Longrightarrow>
   paren_scan (pre @ body @ rest) (length pre) d =
   paren_scan (pre @ body @ rest) (length pre + length body) (d + balance body)"
proof (induction body arbitrary: pre d)
  case Nil
  show ?case by (simp add: balance_Nil)
next
  case (Cons c cs)
  from Cons.prems have d: "0 < d" by (auto simp: balance_Nil)
  have nxt: "\<forall>n < length cs. 0 < (d + balance [c]) + balance (take n cs)"
  proof (intro allI impI)
    fix n assume "n < length cs"
    then have "Suc n < length (c # cs)" by simp
    with Cons.prems have "0 < d + balance (take (Suc n) (c # cs))" by blast
    then show "0 < (d + balance [c]) + balance (take n cs)"
      by (simp add: balance_Cons [of c "take n cs"])
  qed
  have eq: "pre @ (c # cs) @ rest = (pre @ [c]) @ cs @ rest" by simp
  have "paren_scan (pre @ (c # cs) @ rest) (length pre) d =
        paren_scan (pre @ (c # cs) @ rest) (Suc (length pre)) (d + balance [c])"
    using d by (simp add: paren_scan_step)
  also have "\<dots> = paren_scan ((pre @ [c]) @ cs @ rest) (length (pre @ [c])) (d + balance [c])"
    by simp
  also have "\<dots> = paren_scan ((pre @ [c]) @ cs @ rest) (length (pre @ [c]) + length cs)
                      ((d + balance [c]) + balance cs)"
    by (rule Cons.IH [OF nxt])
  also have "\<dots> = paren_scan (pre @ (c # cs) @ rest) (length pre + length (c # cs))
                      (d + balance (c # cs))"
    by (simp add: balance_Cons [of c cs] add.assoc)
  finally show ?case .
qed

lemma py_slice_middle:
  "py_slice (pre @ body @ rest) (int (length pre)) (int (length pre + length body)) = body"
  by (simp add: py_slice_def slice_bound_def Let_def)

lemma balanced_body_prefixes:
  "balanced_body body \<Longrightarrow> \<forall>n < length body. 0 < 1 + balance (take n body)"
proof (intro allI impI)
  fix n assume b: "balanced_body body" and n: "n < length body"
  from n have "n \<in> set [0..<length body]" by simp
  with b have "0 \<le> balance (take n body)"
    unfolding balanced_body_def list_all_iff by blast
  then show "0 < 1 + balance (take n body)" by simp
qed

lemma extract_closed:
  assumes "balanced_body body"
  shows "extract_decorator_args (pre @ body @ CHR '')'' # post) (length pre) = Inr (strip body)"
proof -
  let ?content = "pre @ body @ CHR '')'' # post"
  let ?j = "length pre + length body"
  from assms have b: "balance body = 0" by (simp add: balanced_body_def)
  have "paren_scan ?content (length pre) 1 = paren_scan ?content ?j (1 + balance body)"
    by (rule scan_through [OF balanced_body_prefixes [OF assms]])
  also have "\<dots> = paren_scan ?content (Suc ?j) (1 + balance [?content ! ?j])"
    using b by (simp add: paren_scan_step)
  also have "?content ! ?j = CHR '')''"
    by (simp add: nth_append)
  also have "paren_scan ?content (Suc ?j) (1 + balance [CHR '')'']) = Inr (Suc ?j, 0)"
    by (simp add: paren_scan_stop balance_def)
  finally have "paren_scan ?content (length pre) 1 = Inr (Suc ?j, 0)" .
  moreover have "py_slice ?content (int (length pre)) (int (Suc ?j) - 1) = body"
    using py_slice_middle [of pre body "CHR '')'' # post"] by simp
  ultimately show ?thesis by (simp add: extract_decorator_args_def)
qed

lemma py_slice_butlast:
  "py_slice (pre @ body) (int (length pre)) (int (length pre + length body) - 1) = butlast body"
proof (cases body)
  case Nil
  then show ?thesis by (simp add: py_slice_def slice_bound_def Let_def)
next
  case (Cons c cs)
  then show ?thesis
    by (simp add: py_slice_def slice_bound_def Let_def butlast_conv_take)
qed

lemma never_closes_prefixes:
  "never_closes body \<Longrightarrow> \<forall>n < length body. 0 < 1 + balance (take n body)"
proof (intro allI impI)
  fix n assume b: "never_closes body" and n: "n < length body"
  from n have "n \<in> set [0..<Suc (length body)]" by simp
  with b have "0 \<le> balance (take n body)"
    unfolding never_closes_def list_all_iff by blast
  then show "0 < 1 + balance (take n body)" by simp
qed

lemma extract_unclosed:
  assumes "never_closes body"
  shows "extract_decorator_args (pre @ body) (length pre) = Inr (strip (butlast body))"
proof -
  have "paren_scan (pre @ body @ []) (length pre) 1 =
        paren_scan (pre @ body @ []) (length pre + length body) (1 + balance body)"
    by (rule scan_through [OF never_closes_prefixes [OF assms]])
  also have "\<dots> = Inr (length pre + length body, 1 + balance body)"
    by (simp add: paren_scan_stop)
  finally have "paren_scan (pre @ body) (length pre) 1 =
                Inr (length pre + length body, 1 + balance body)" by simp
  then show ?thesis
    using py_slice_butlast [of pre body] by (simp add: extract_decorator_args_def)
qed

lemma extract_decorator_args_total:
  "\<exists>args. extract_decorator_args content start_pos = Inr args"
proof -
  obtain i d where "paren_scan content start_pos 1 = Inr (i, d)"
    using paren_scan_total [of content start_pos 1] by blast
  then show ?thesis by (simp add: extract_decorator_args_def)
qed

lemma route_of_match_total:
  "\<exists>r. route_of_match f content m = Inr r
       \<and> path r = resolve_path (decorator_args r)
       \<and> http_method r = map ascii_upper (fst m)
       \<and> versioned r = VERSION_PATTERN_search (path r)
       \<and> has_response_model r = has_kwarg (decorator_args r) ''response_model''
       \<and> has_tags r = has_kwarg (decorator_args r) ''tags''
       \<and> has_summary r = has_kwarg (decorator_args r) ''summary''
       \<and> has_description r = has_kwarg (decorator_args r) ''description''
       \<and> extract_decorator_args content (snd m) = Inr (decorator_args r)"
proof -
  obtain args where "extract_decorator_args content (snd m) = Inr args"
    using extract_decorator_args_total by blast
  then show ?thesis by (simp add: route_of_match_def Let_def)
qed



lemma VERSION_PATTERN_search_iff: "VERSION_PATTERN_search p \<longleftrightarrow> has_version_segment p"
  unfolding VERSION_PATTERN_search_def has_version_segment_def re_search_exists version_at_iff ..

lemma has_kwarg_iff: "has_kwarg s keyword \<longleftrightarrow> kwarg_token_in keyword s"
  unfolding has_kwarg_def kwarg_token_in_def re_search_exists kwarg_at_iff ..

lemma legacy_path: \<open>resolve_path ''"/legacy"'' = ''/legacy''\<close>
  by code_simp

lemma legacy_flags:
  \<open>\<not> VERSION_PATTERN_search ''/legacy''\<close>
  \<open>\<not> has_kwarg ''"/legacy"'' ''response_model''\<close>
  \<open>\<not> has_kwarg ''"/legacy"'' ''tags''\<close>
  \<open>\<not> has_kwarg ''"/legacy"'' ''summary''\<close>
  \<open>\<not> has_kwarg ''"/legacy"'' ''description''\<close>
  by code_simp+

lemma path_keyword_at_iff:
  "path_keyword_at args n v \<longleftrightarrow> n \<le> length args \<and> kw_literal_at ''path'' (drop n args) = Some v"
  by (simp add: path_keyword_at_def kw_literal_at_iff)

lemma no_keyword_before_iff:
  "(\<forall>k<n. \<forall>u. \<not> path_keyword_at args k u) \<longleftrightarrow>
   list_all (\<lambda>k. length args < k \<or> kw_literal_at ''path'' (drop k args) = None) [0..<n]"
proof -
  have *: "(\<forall>u. \<not> path_keyword_at args k u) \<longleftrightarrow>
        (length args < k \<or> kw_literal_at ''path'' (drop k args) = None)" for k
    by (auto simp: path_keyword_at_iff)
  show ?thesis unfolding * list_all_iff by auto
qed

lemma path_keyword_in_iff:
  "path_keyword_in args \<longleftrightarrow> re_search (kw_literal_at ''path'') args \<noteq> None"
proof
  assume "path_keyword_in args"
  then obtain n v where n: "n \<le> length args"
    and v: "kw_literal_at ''path'' (drop n args) = Some v"
    unfolding path_keyword_in_def path_keyword_at_iff by blast
  show "re_search (kw_literal_at ''path'') args \<noteq> None"
  proof
    assume "re_search (kw_literal_at ''path'') args = None"
    then have "\<forall>k \<le> length args. kw_literal_at ''path'' (drop k args) = None"
      unfolding re_search_None .
    with n have "kw_literal_at ''path'' (drop n args) = None" by simp
    with v show False by simp
  qed
next
  assume "re_search (kw_literal_at ''path'') args \<noteq> None"
  then obtain v where "re_search (kw_literal_at ''path'') args = Some v" by auto
  then obtain n where "leftmost (kw_literal_at ''path'') args n v"
    unfolding re_search_Some by (rule exE)
  then have "path_keyword_at args n v"
    by (simp add: leftmost_def path_keyword_at_iff)
  then show "path_keyword_in args" unfolding path_keyword_in_def by (intro exI)
qed

lemma kw_assignment_nonempty: "kw_assignment keyword s v \<Longrightarrow> v \<noteq> []"
  by (auto simp: kw_assignment_def quoted_literal_def)

lemma leading_literal_nonempty: "leading_literal s v \<Longrightarrow> v \<noteq> []"
  by (auto simp: leading_literal_def quoted_literal_def)

lemma resolve_path_keyword:
  assumes at: "path_keyword_at args n v"
    and first: "\<forall>k<n. \<forall>u. \<not> path_keyword_at args k u"
  shows "resolve_path args = v"
proof -
  let ?m = "kw_literal_at ''path''"
  from at have n: "n \<le> length args" and v: "?m (drop n args) = Some v"
    by (simp_all add: path_keyword_at_iff)
  have none: "\<forall>k<n. ?m (drop k args) = None"
  proof (intro allI impI)
    fix k assume k: "k < n"
    with n have kl: "k \<le> length args" by simp
    show "?m (drop k args) = None"
    proof (cases "?m (drop k args)")
      case None
      then show ?thesis .
    next
      case (Some u)
      with kl have "path_keyword_at args k u" by (simp add: path_keyword_at_iff)
      with first k show ?thesis by blast
    qed
  qed
  from n v none have "leftmost ?m args n v" by (simp add: leftmost_def)
  then have "\<exists>n. leftmost ?m args n v" by (rule exI)
  then have "re_search ?m args = Some v" unfolding re_search_Some .
  moreover from at have "v \<noteq> []"
    by (auto simp: path_keyword_at_def dest: kw_assignment_nonempty)
  ultimately show ?thesis by (simp add: resolve_path_def extract_string_arg_def)
qed

lemma resolve_path_no_keyword:
  assumes "\<not> path_keyword_in args"
  shows "resolve_path args = (case bare_literal args of None \<Rightarrow> ''UNKNOWN'' | Some v \<Rightarrow> v)"
proof -
  from assms have none: "re_search (kw_literal_at ''path'') args = None"
    by (simp add: path_keyword_in_iff)
  show ?thesis
  proof (cases "bare_literal args")
    case None
    with none show ?thesis by (simp add: resolve_path_def extract_string_arg_def)
  next
    case (Some v)
    then have "leading_literal args v" by (simp add: bare_literal_iff)
    then have "v \<noteq> []" by (rule leading_literal_nonempty)
    with none Some show ?thesis by (simp add: resolve_path_def extract_string_arg_def)
  qed
qed

lemma no_leading_literal_iff: "(\<forall>u. \<not> leading_literal args u) \<longleftrightarrow> bare_literal args = None"
proof -
  have "(\<forall>u. \<not> leading_literal args u) \<longleftrightarrow> (\<forall>u. bare_literal args \<noteq> Some u)"
    by (simp add: bare_literal_iff)
  also have "\<dots> \<longleftrightarrow> bare_literal args = None" by auto
  finally show ?thesis .
qed

lemma kw_literal_at_other:
  "c \<noteq> CHR ''p'' \<Longrightarrow> kw_literal_at ''path'' (c # cs) = None"
  by (simp add: kw_literal_at_def)

lemma quote_not_p: "is_quote q \<Longrightarrow> q \<noteq> CHR ''p''"
  by (auto simp: is_quote_def)

lemma quoted_at_empty: "is_quote q \<Longrightarrow> quoted_at (q # q # rest) = None"
  by (simp add: quoted_at_def)

lemma kw_literal_at_empty:
  "is_quote q \<Longrightarrow> kw_literal_at ''path'' (''path='' @ q # q # rest) = None"
  by (simp add: kw_literal_at_def not_space_eq not_space_quote quoted_at_empty)

lemma re_search_keyword_empty:
  assumes "is_quote q"
  shows "re_search (kw_literal_at ''path'') (''path='' @ q # q # rest)
         = re_search (kw_literal_at ''path'') rest"
  using kw_literal_at_empty [OF assms, of rest] quote_not_p [OF assms]
  by (simp add: kw_literal_at_other)

lemma re_search_bare_empty:
  assumes "is_quote q"
  shows "re_search (kw_literal_at ''path'') (q # q # rest)
         = re_search (kw_literal_at ''path'') rest"
  using quote_not_p [OF assms] by (simp add: kw_literal_at_other)

lemma bare_literal_keyword: "bare_literal (''path='' @ s) = None"
  by (simp add: bare_literal_def quoted_at_def is_space_def is_quote_def)

lemma bare_literal_empty: "is_quote q \<Longrightarrow> bare_literal (q # q # rest) = None"
  by (simp add: bare_literal_def not_space_quote quoted_at_empty)

lemma resolve_path_empty_literal:
  assumes q: "is_quote q" and rest: "\<not> path_keyword_in rest"
  shows "resolve_path (''path='' @ q # q # rest) = ''UNKNOWN''"
    and "resolve_path (q # q # rest) = ''UNKNOWN''"
proof -
  from rest have none: "re_search (kw_literal_at ''path'') rest = None"
    by (simp add: path_keyword_in_iff)
  show "resolve_path (''path='' @ q # q # rest) = ''UNKNOWN''"
    unfolding resolve_path_def extract_string_arg_def
      re_search_keyword_empty [OF q] none bare_literal_keyword by simp
  show "resolve_path (q # q # rest) = ''UNKNOWN''"
    unfolding resolve_path_def extract_string_arg_def
      re_search_bare_empty [OF q] none bare_literal_empty [OF q] by simp
qed

lemma unknown_not_versioned: "\<not> VERSION_PATTERN_search ''UNKNOWN''"
  by code_simp

lemma list_all_upto: "list_all P [0..<Suc L] \<longleftrightarrow> (\<forall>n \<le> L. P n)"
  unfolding list_all_iff set_upt by (auto simp: less_Suc_eq_le)

lemma named_path_keyword_in_iff:
  "named_path_keyword_in args \<longleftrightarrow>
   \<not> list_all (\<lambda>n. kw_literal_at ''path'' (drop n args) = None
                    \<or> (n \<noteq> 0 \<and> is_word (args ! (n - 1))))
        [0..<Suc (length args)]"
proof -
  have "named_path_keyword_in args \<longleftrightarrow>
        (\<exists>n. n \<le> length args \<and> \<not> (kw_literal_at ''path'' (drop n args) = None
             \<or> (n \<noteq> 0 \<and> is_word (args ! (n - 1)))))"
    unfolding named_path_keyword_in_def named_path_keyword_at_def path_keyword_at_iff by auto
  also have "\<dots> \<longleftrightarrow> \<not> (\<forall>n \<le> length args. kw_literal_at ''path'' (drop n args) = None
             \<or> (n \<noteq> 0 \<and> is_word (args ! (n - 1))))"
    by blast
  finally show ?thesis unfolding list_all_upto .
qed

lemma kw_literal_at_empty_spaced:
  assumes q: "is_quote q" and w1: "list_all is_space ws1" and w2: "list_all is_space ws2"
  shows "kw_literal_at ''path'' (''path'' @ ws1 @ CHR ''='' # ws2 @ q # q # rest) = None"
proof -
  have d1: "dropWhile is_space (ws1 @ CHR ''='' # ws2 @ q # q # rest)
            = CHR ''='' # ws2 @ q # q # rest"
    using w1 by (simp add: dropWhile_all_append not_space_eq)
  have d2: "dropWhile is_space (ws2 @ q # q # rest) = q # q # rest"
    using w2 q by (simp add: dropWhile_all_append not_space_quote)
  have p: "prefix ''path'' (''path'' @ ws1 @ CHR ''='' # ws2 @ q # q # rest)"
    by (rule prefixI) simp
  have dr: "drop (length ''path'') (''path'' @ ws1 @ CHR ''='' # ws2 @ q # q # rest)
            = ws1 @ CHR ''='' # ws2 @ q # q # rest"
    by simp
  have "quoted_at (q # q # rest) = None" by (rule quoted_at_empty [OF q])
  with p show ?thesis
    unfolding kw_literal_at_def dr d1 by (simp add: d2)
qed

lemma empty_keyword_no_match:
  assumes "is_quote q" "list_all is_space ws1" "list_all is_space ws2"
  shows "\<not> path_keyword_at (pre @ ''path'' @ ws1 @ CHR ''='' # ws2 @ q # q # rest) (length pre) v"
proof -
  have "drop (length pre) (pre @ ''path'' @ ws1 @ CHR ''='' # ws2 @ q # q # rest)
        = ''path'' @ ws1 @ CHR ''='' # ws2 @ q # q # rest"
    by simp
  then show ?thesis
    unfolding path_keyword_at_iff
    by (simp only: kw_literal_at_empty_spaced [OF assms]) simp
qed

lemma empty_bare_no_match: "is_quote q \<Longrightarrow> \<not> leading_literal (q # q # rest) v"
  using bare_literal_empty [of q rest] bare_literal_iff [of "q # q # rest" v] by simp

lemma resolve_path_neither:
  assumes "\<not> path_keyword_in args" "\<forall>v. \<not> leading_literal args v"
  shows "resolve_path args = ''UNKNOWN''"
proof -
  from assms(2) have "bare_literal args = None" by (simp only: no_leading_literal_iff)
  with assms(1) show ?thesis by (simp add: resolve_path_no_keyword)
qed

lemma unknown_record:
  assumes u: "resolve_path args = ''UNKNOWN''"
    and e: "extract_decorator_args content (snd m) = Inr args"
  shows "\<exists>r. route_of_match f content m = Inr r \<and> path r = ''UNKNOWN'' \<and> \<not> versioned r"
proof -
  obtain r where r: "route_of_match f content m = Inr r"
    "path r = resolve_path (decorator_args r)" "versioned r = VERSION_PATTERN_search (path r)"
    "extract_decorator_args content (snd m) = Inr (decorator_args r)"
    using route_of_match_total [of f content m] by blast
  from e r(4) have "decorator_args r = args" by simp
  with r u unknown_not_versioned
  have "route_of_match f content m = Inr r \<and> path r = ''UNKNOWN'' \<and> \<not> versioned r"
    by simp
  then show ?thesis by (rule exI)
qed


section \<open>The claims\<close>

text \<open>
  Claim C1. For every route record, \<open>score_route\<close> stores the score
  \<open>max (100 - sum of the triggered penalties) 30\<close>, with penalties 20, 25, 10, 10 and 5
  for a missing version segment, response model, tags, summary and description; the
  score lies between 30 and 100 and depends on the five flags only. A record with
  versioning, response model and tags but no summary and no description scores 85,
  with exactly the summary and description penalties.
\<close>

theorem C1_score_route:
  "score (score_route r) = max (100 - penalty_sum r) 30
   \<and> 30 \<le> score (score_route r) \<and> score (score_route r) \<le> 100
   \<and> (flags r = flags r' \<longrightarrow> score (score_route r) = score (score_route r'))
   \<and> (flags r = (True, True, True, False, False) \<longrightarrow>
        score (score_route r) = 85
        \<and> penalties (score_route r) =
            [''Missing summary= for endpoint title'', ''Missing description= for details''])"
proof -
  have a: "score (score_route r) = max (100 - penalty_sum r) 30"
    by (rule score_route_score)
  have b: "30 \<le> score (score_route r) \<and> score (score_route r) \<le> 100"
    using penalty_sum_bounds [of r] by (simp add: score_route_score)
  have c: "flags r = flags r' \<longrightarrow> score (score_route r) = score (score_route r')"
    using penalty_sum_flags [of r r'] by (simp add: score_route_score)
  have d: "flags r = (True, True, True, False, False) \<longrightarrow>
        score (score_route r) = 85
        \<and> penalties (score_route r) =
            [''Missing summary= for endpoint title'', ''Missing description= for details'']"
    by (simp add: flags_def score_route_score score_route_penalties penalty_sum_def
        triggered_def rubric_def)
  from a b c d show ?thesis by blast
qed

theorem C1_score_route_witness:
  "flags demo_route = flags (demo_route\<lparr>path := ''/v3/items''\<rparr>)
   \<and> flags demo_route = (True, True, True, False, False)
   \<and> score (score_route demo_route) = score (score_route (demo_route\<lparr>path := ''/v3/items''\<rparr>))
   \<and> score (score_route demo_route) = 85
   \<and> penalties (score_route demo_route) =
        [''Missing summary= for endpoint title'', ''Missing description= for details'']"
  using C1_score_route [of demo_route "demo_route\<lparr>path := ''/v3/items''\<rparr>"]
  by (simp add: flags_def demo_route_def)

text \<open>
  Claim C9. The floor of 30 never changes a score: the penalties sum to at most 70, so
  \<open>score_route\<close> equals the scorer without the final \<open>max\<close>.
\<close>

theorem C9_floor_never_binding: "score_route r = score_route_unclamped r"
proof -
  have "100 - penalty_sum r \<ge> 30" using penalty_sum_bounds [of r] by simp
  then show ?thesis
    by (simp add: score_route_def score_route_unclamped_def score_steps_rubric)
qed

text \<open>
  Claim C2, as amended. When the argument list of a decorator closes, the argument text
  is the text strictly between the opening parenthesis and its matching closing
  parenthesis, found by the nesting counter, with leading and trailing whitespace
  stripped; nested parentheses stay inside it.
\<close>

theorem C2_argument_text_stripped:
  "balanced_body body \<Longrightarrow>
   extract_decorator_args (pre @ body @ CHR '')'' # post) (length pre) = Inr (strip body)"
  by (rule extract_closed)

theorem C2_argument_text_stripped_witness:
  \<open>balanced_body '' "/x", dependencies=[Depends(f(1))] ''
   \<and> route_finditer ''@app.get( "/x", dependencies=[Depends(f(1))] )#'' 0
       = [(''get'', length ''@app.get('')]
   \<and> ''@app.get( "/x", dependencies=[Depends(f(1))] )#''
       = ''@app.get('' @ '' "/x", dependencies=[Depends(f(1))] '' @ CHR '')'' # ''#''
   \<and> extract_decorator_args
        (''@app.get('' @ '' "/x", dependencies=[Depends(f(1))] '' @ CHR '')'' # ''#'')
        (length ''@app.get('')
       = Inr ''"/x", dependencies=[Depends(f(1))]''\<close>
proof -
  have b: \<open>balanced_body '' "/x", dependencies=[Depends(f(1))] ''\<close>
    by code_simp
  have f: \<open>route_finditer ''@app.get( "/x", dependencies=[Depends(f(1))] )#'' 0
       = [(''get'', length ''@app.get('')]\<close>
    by code_simp
  have c: \<open>''@app.get( "/x", dependencies=[Depends(f(1))] )#''
       = ''@app.get('' @ '' "/x", dependencies=[Depends(f(1))] '' @ CHR '')'' # ''#''\<close>
    by simp
  have s: \<open>strip '' "/x", dependencies=[Depends(f(1))] '' = ''"/x", dependencies=[Depends(f(1))]''\<close>
    by code_simp
  have e: \<open>extract_decorator_args
        (''@app.get('' @ '' "/x", dependencies=[Depends(f(1))] '' @ CHR '')'' # ''#'')
        (length ''@app.get('')
       = Inr ''"/x", dependencies=[Depends(f(1))]''\<close>
    using C2_argument_text_stripped [OF b, of "''@app.get(''" "''#''"] unfolding s .
  from b f c e show ?thesis by blast
qed

theorem C2_counterexample:
  \<open>route_finditer ''@app.get( "/x" )'' 0 = [(''get'', 9)]
   \<and> ''@app.get( "/x" )'' = ''@app.get('' @ '' "/x" '' @ '')''
   \<and> balanced_body '' "/x" ''
   \<and> extract_decorator_args ''@app.get( "/x" )'' 9 \<noteq> Inr '' "/x" ''\<close>
  by code_simp

text \<open>
  Claim C7, at the failing input. The decorator \<^verbatim>\<open>@app.get("/x"\<close> never closes: the scan
  stops at the end of the text without raising and a record is emitted, but the slice
  \<^verbatim>\<open>content[arg_start:i-1]\<close> drops the last character of the text, so the argument text
  loses its closing quote and the path is not found.
\<close>

theorem C7_unclosed_drops_last_character:
  \<open>analyze_content ''main.py'' ''@app.get("/x"'' =
     Inr [\<lparr>http_method = ''GET'', path = ''UNKNOWN'', file_rel = ''main.py'',
           versioned = False, has_response_model = False, has_tags = False,
           has_summary = False, has_description = False,
           decorator_args = [CHR 0x22, CHR ''/'', CHR ''x'']\<rparr>]\<close>
  by code_simp

text \<open>
  Claim C4. The versioning flag of a path holds exactly when the path contains, at some
  position, a slash, the letter v in either case, and one or more digits. The paths
  \<^verbatim>\<open>/v1/users\<close> and \<^verbatim>\<open>/v12/items\<close> are versioned; \<^verbatim>\<open>/users\<close> and the sentinel
  \<^verbatim>\<open>UNKNOWN\<close> are not. Every emitted record carries this flag of its own path.
\<close>

theorem C4_versioning_flag:
  "(VERSION_PATTERN_search p \<longleftrightarrow> has_version_segment p)
   \<and> VERSION_PATTERN_search ''/v1/users'' \<and> VERSION_PATTERN_search ''/v12/items''
   \<and> \<not> VERSION_PATTERN_search ''/users'' \<and> \<not> VERSION_PATTERN_search ''UNKNOWN''
   \<and> (\<exists>r. route_of_match f content m = Inr r \<and> versioned r = has_version_segment (path r))"
proof -
  have a: "VERSION_PATTERN_search ''/v1/users''" by code_simp
  have b: "VERSION_PATTERN_search ''/v12/items''" by code_simp
  have c: "\<not> VERSION_PATTERN_search ''/users''" by code_simp
  have d: "\<not> VERSION_PATTERN_search ''UNKNOWN''" by code_simp
  obtain r where r: "route_of_match f content m = Inr r"
    "versioned r = VERSION_PATTERN_search (path r)"
    using route_of_match_total [of f content m] by blast
  then have e: "\<exists>r. route_of_match f content m = Inr r \<and> versioned r = has_version_segment (path r)"
    unfolding VERSION_PATTERN_search_iff by blast
  from a b c d e show ?thesis unfolding VERSION_PATTERN_search_iff by blast
qed

theorem C4_versioning_flag_witness:
  \<open>has_version_segment ''/api/V2/orders'' \<and> \<not> has_version_segment ''/v/users''
   \<and> (\<exists>r. route_of_match ''main.py'' ''@app.get("/api/V2/orders")'' (''get'', 9) = Inr r
          \<and> versioned r = has_version_segment (path r))\<close>
proof -
  have a: "VERSION_PATTERN_search ''/api/V2/orders''" by code_simp
  have b: "\<not> VERSION_PATTERN_search ''/v/users''" by code_simp
  from a b C4_versioning_flag [of "''/api/V2/orders''"] C4_versioning_flag [of "''/v/users''"]
    C4_versioning_flag [of _ "''main.py''" \<open>''@app.get("/api/V2/orders")''\<close> "(''get'', 9)"]
  show ?thesis by blast
qed

text \<open>
  Claim C5. For each of the keyword names \<^verbatim>\<open>response_model\<close>, \<^verbatim>\<open>tags\<close>, \<^verbatim>\<open>summary\<close> and
  \<^verbatim>\<open>description\<close>, and for every argument text, the flag holds exactly when the name,
  optional whitespace and an equals sign appear somewhere in the argument text,
  whatever follows the equals sign.
\<close>

theorem C5_keyword_flags:
  "(has_kwarg args keyword \<longleftrightarrow> kwarg_token_in keyword args)
   \<and> (\<exists>r. route_of_match f content m = Inr r
          \<and> has_response_model r = kwarg_token_in ''response_model'' (decorator_args r)
          \<and> has_tags r = kwarg_token_in ''tags'' (decorator_args r)
          \<and> has_summary r = kwarg_token_in ''summary'' (decorator_args r)
          \<and> has_description r = kwarg_token_in ''description'' (decorator_args r))"
proof -
  obtain r where r: "route_of_match f content m = Inr r"
    "has_response_model r = has_kwarg (decorator_args r) ''response_model''"
    "has_tags r = has_kwarg (decorator_args r) ''tags''"
    "has_summary r = has_kwarg (decorator_args r) ''summary''"
    "has_description r = has_kwarg (decorator_args r) ''description''"
    using route_of_match_total [of f content m] by blast
  then show ?thesis unfolding has_kwarg_iff by blast
qed

theorem C5_keyword_flags_witness:
  \<open>kwarg_token_in ''tags'' ''"/x", tags  = ["a"], summary=None''
   \<and> kwarg_token_in ''summary'' ''"/x", tags  = ["a"], summary=None''
   \<and> \<not> kwarg_token_in ''description'' ''"/x", tags  = ["a"], summary=None''
   \<and> \<not> kwarg_token_in ''response_model'' ''"/x", tags  = ["a"], summary=None''\<close>
proof -
  have a: \<open>has_kwarg ''"/x", tags  = ["a"], summary=None'' ''tags''\<close> by code_simp
  have b: \<open>has_kwarg ''"/x", tags  = ["a"], summary=None'' ''summary''\<close> by code_simp
  have c: \<open>\<not> has_kwarg ''"/x", tags  = ["a"], summary=None'' ''description''\<close> by code_simp
  have d: \<open>\<not> has_kwarg ''"/x", tags  = ["a"], summary=None'' ''response_model''\<close> by code_simp
  from a b c d
    C5_keyword_flags [of \<open>''"/x", tags  = ["a"], summary=None''\<close> "''tags''"]
    C5_keyword_flags [of \<open>''"/x", tags  = ["a"], summary=None''\<close> "''summary''"]
    C5_keyword_flags [of \<open>''"/x", tags  = ["a"], summary=None''\<close> "''description''"]
    C5_keyword_flags [of \<open>''"/x", tags  = ["a"], summary=None''\<close> "''response_model''"]
  show ?thesis by blast
qed

text \<open>
  Claim C6. The penalties of a scored route are the deficiency descriptions of the
  violated rules, in the fixed order of the rubric table (versioning, response model,
  tags, summary, description), whatever the input. A declaration whose argument text
  is \<^verbatim>\<open>"/legacy"\<close> receives all five penalties in that order and the score 30.
\<close>

theorem C6_penalties_in_table_order:
  \<open>penalties (score_route r) = map (\<lambda>rule. snd (snd rule)) (triggered r)
   \<and> subseq (penalties (score_route r)) (map (\<lambda>rule. snd (snd rule)) rubric)
   \<and> (extract_decorator_args content (snd m) = Inr ''"/legacy"'' \<longrightarrow>
        (\<exists>q. route_of_match f content m = Inr q
           \<and> score (score_route q) = 30
           \<and> penalties (score_route q) = map (\<lambda>rule. snd (snd rule)) rubric))\<close>
proof -
  have a: "penalties (score_route r) = map (\<lambda>rule. snd (snd rule)) (triggered r)"
    by (rule score_route_penalties)
  have b: "subseq (penalties (score_route r)) (map (\<lambda>rule. snd (snd rule)) rubric)"
    unfolding a triggered_def by (intro subseq_map subseq_filter_left)
  have c: \<open>extract_decorator_args content (snd m) = Inr ''"/legacy"'' \<longrightarrow>
        (\<exists>q. route_of_match f content m = Inr q
           \<and> score (score_route q) = 30
           \<and> penalties (score_route q) = map (\<lambda>rule. snd (snd rule)) rubric)\<close>
  proof
    assume h: \<open>extract_decorator_args content (snd m) = Inr ''"/legacy"''\<close>
    let ?q = \<open>\<lparr>http_method = map ascii_upper (fst m), path = ''/legacy'', file_rel = f,
                versioned = False, has_response_model = False, has_tags = False,
                has_summary = False, has_description = False,
                decorator_args = ''"/legacy"''\<rparr>\<close>
    have q: "route_of_match f content m = Inr ?q"
      unfolding route_of_match_def h using legacy_flags by (simp add: legacy_path)
    have "score (score_route ?q) = 30"
      by (simp add: score_route_score penalty_sum_def triggered_def rubric_def)
    moreover have "penalties (score_route ?q) = map (\<lambda>rule. snd (snd rule)) rubric"
      by (simp add: score_route_penalties triggered_def rubric_def)
    ultimately show \<open>\<exists>q. route_of_match f content m = Inr q
           \<and> score (score_route q) = 30
           \<and> penalties (score_route q) = map (\<lambda>rule. snd (snd rule)) rubric\<close>
      using q by blast
  qed
  from a b c show ?thesis by blast
qed

theorem C6_penalties_in_table_order_witness:
  \<open>extract_decorator_args ''@app.get("/legacy")'' (snd (''get'', 9 :: nat)) = Inr ''"/legacy"''
   \<and> (\<exists>q. route_of_match ''main.py'' ''@app.get("/legacy")'' (''get'', 9) = Inr q
          \<and> score (score_route q) = 30
          \<and> penalties (score_route q) =
              [''Missing API versioning (e.g., /v1/, /v2/)'',
               ''Missing response_model (critical for typing & docs)'',
               ''Missing tags= for OpenAPI grouping'',
               ''Missing summary= for endpoint title'',
               ''Missing description= for details''])\<close>
proof -
  have h: \<open>extract_decorator_args ''@app.get("/legacy")'' (snd (''get'', 9 :: nat)) = Inr ''"/legacy"''\<close>
    by code_simp
  have t: \<open>map (\<lambda>rule. snd (snd rule)) rubric =
              [''Missing API versioning (e.g., /v1/, /v2/)'',
               ''Missing response_model (critical for typing & docs)'',
               ''Missing tags= for OpenAPI grouping'',
               ''Missing summary= for endpoint title'',
               ''Missing description= for details'']\<close>
    by (simp add: rubric_def)
  from h C6_penalties_in_table_order [of demo_route \<open>''@app.get("/legacy")''\<close> "(''get'', 9)" "''main.py''"]
  show ?thesis unfolding t by blast
qed

text \<open>
  Claim C3, as amended. The path of a declaration is resolved in a fixed precedence.
  If the argument text contains, at any position (also as the tail of a longer name
  such as \<^verbatim>\<open>xpath=\<close>, or inside a string), the letters \<^verbatim>\<open>path\<close>, optional whitespace, an
  equals sign, optional whitespace, a quote, a non-empty run of characters that are
  not quotes, and a quote (each quote single or double), the path is that run at the
  leftmost such position. Otherwise, if the argument text starts, after optional
  whitespace, with a quote, a non-empty run of characters that are not quotes, and a
  quote, the path is that run. Otherwise the path is the sentinel \<^verbatim>\<open>UNKNOWN\<close>. Every
  record, whatever its verb, the generic \<^verbatim>\<open>route\<close> form included, gets its path this
  way.
\<close>

theorem C3_path_precedence:
  "(path_keyword_at args n v \<and> (\<forall>k<n. \<forall>u. \<not> path_keyword_at args k u)
      \<longrightarrow> resolve_path args = v)
   \<and> (\<not> path_keyword_in args \<and> leading_literal args v \<longrightarrow> resolve_path args = v)
   \<and> (\<not> path_keyword_in args \<and> (\<forall>u. \<not> leading_literal args u)
      \<longrightarrow> resolve_path args = ''UNKNOWN'')
   \<and> (\<exists>r. route_of_match f content m = Inr r
          \<and> http_method r = map ascii_upper (fst m)
          \<and> path r = resolve_path (decorator_args r))"
proof -
  have a: "path_keyword_at args n v \<and> (\<forall>k<n. \<forall>u. \<not> path_keyword_at args k u)
      \<longrightarrow> resolve_path args = v"
    using resolve_path_keyword [of args n v] by blast
  have b: "\<not> path_keyword_in args \<and> leading_literal args v \<longrightarrow> resolve_path args = v"
  proof
    assume h: "\<not> path_keyword_in args \<and> leading_literal args v"
    then have "bare_literal args = Some v" by (simp add: bare_literal_iff)
    with h show "resolve_path args = v" by (simp add: resolve_path_no_keyword)
  qed
  have c: "\<not> path_keyword_in args \<and> (\<forall>u. \<not> leading_literal args u)
      \<longrightarrow> resolve_path args = ''UNKNOWN''"
  proof
    assume h: "\<not> path_keyword_in args \<and> (\<forall>u. \<not> leading_literal args u)"
    then have "bare_literal args = None" by (simp only: no_leading_literal_iff)
    with h show "resolve_path args = ''UNKNOWN''" by (simp add: resolve_path_no_keyword)
  qed
  obtain r where "route_of_match f content m = Inr r"
    "http_method r = map ascii_upper (fst m)" "path r = resolve_path (decorator_args r)"
    using route_of_match_total [of f content m] by blast
  then have d: "\<exists>r. route_of_match f content m = Inr r
          \<and> http_method r = map ascii_upper (fst m)
          \<and> path r = resolve_path (decorator_args r)" by blast
  from a b c d show ?thesis by blast
qed

theorem C3_path_precedence_witness:
  \<open>path_keyword_at ''"/b", path="/a", xpath="/c"'' 6 ''/a''
   \<and> resolve_path ''"/b", path="/a", xpath="/c"'' = ''/a''
   \<and> \<not> path_keyword_in ''"/b", tags=["t"]'' \<and> leading_literal ''"/b", tags=["t"]'' ''/b''
   \<and> resolve_path ''"/b", tags=["t"]'' = ''/b''
   \<and> \<not> path_keyword_in ''prefix + "/b"''
   \<and> resolve_path ''prefix + "/b"'' = ''UNKNOWN''
   \<and> route_of_match ''main.py'' ''@app.route("/r")'' (''route'', 11)
       = Inr \<lparr>http_method = ''ROUTE'', path = ''/r'', file_rel = ''main.py'',
               versioned = False, has_response_model = False, has_tags = False,
               has_summary = False, has_description = False,
               decorator_args = [CHR 0x22, CHR ''/'', CHR ''r'', CHR 0x22]\<rparr>\<close>
proof -
  have a1: \<open>path_keyword_at ''"/b", path="/a", xpath="/c"'' 6 ''/a''\<close>
    unfolding path_keyword_at_iff by code_simp
  have a2: \<open>\<forall>k<6. \<forall>u. \<not> path_keyword_at ''"/b", path="/a", xpath="/c"'' k u\<close>
    unfolding no_keyword_before_iff by code_simp
  have b1: \<open>\<not> path_keyword_in ''"/b", tags=["t"]''\<close>
    unfolding path_keyword_in_iff by code_simp
  have b2: \<open>leading_literal ''"/b", tags=["t"]'' ''/b''\<close>
    unfolding bare_literal_iff [symmetric] by code_simp
  have c1: \<open>\<not> path_keyword_in ''prefix + "/b"''\<close>
    unfolding path_keyword_in_iff by code_simp
  have c2: \<open>\<forall>u. \<not> leading_literal ''prefix + "/b"'' u\<close>
    unfolding no_leading_literal_iff by code_simp
  have d: \<open>route_of_match ''main.py'' ''@app.route("/r")'' (''route'', 11)
       = Inr \<lparr>http_method = ''ROUTE'', path = ''/r'', file_rel = ''main.py'',
               versioned = False, has_response_model = False, has_tags = False,
               has_summary = False, has_description = False,
               decorator_args = [CHR 0x22, CHR ''/'', CHR ''r'', CHR 0x22]\<rparr>\<close>
    by code_simp
  from a1 a2 C3_path_precedence [of \<open>''"/b", path="/a", xpath="/c"''\<close> 6 "''/a''"]
  have a: \<open>resolve_path ''"/b", path="/a", xpath="/c"'' = ''/a''\<close> by blast
  from b1 b2 C3_path_precedence [of \<open>''"/b", tags=["t"]''\<close> _ "''/b''"]
  have b: \<open>resolve_path ''"/b", tags=["t"]'' = ''/b''\<close> by blast
  from c1 c2 C3_path_precedence [of \<open>''prefix + "/b"''\<close>]
  have c: \<open>resolve_path ''prefix + "/b"'' = ''UNKNOWN''\<close> by blast
  from a1 a b1 b2 b c1 c d show ?thesis by blast
qed

theorem C3_counterexample:
  \<open>\<not> named_path_keyword_in ''"/b", xpath="/c"''
   \<and> leading_literal ''"/b", xpath="/c"'' ''/b''
   \<and> resolve_path ''"/b", xpath="/c"'' = ''/c''
   \<and> map_sum id (map path) (analyze_content ''main.py'' ''@app.get("/b", xpath="/c")'')
       = Inr [''/c'']
   \<and> bare_literal ''"", tags=["t"]'' = None
   \<and> resolve_path ''"", tags=["t"]'' = ''UNKNOWN''\<close>
proof -
  have a: \<open>\<not> named_path_keyword_in ''"/b", xpath="/c"''\<close>
    unfolding named_path_keyword_in_iff by code_simp
  have b: \<open>leading_literal ''"/b", xpath="/c"'' ''/b''\<close>
    unfolding bare_literal_iff [symmetric] by code_simp
  have c: \<open>resolve_path ''"/b", xpath="/c"'' = ''/c''\<close>
    by code_simp
  have d: \<open>map_sum id (map path) (analyze_content ''main.py'' ''@app.get("/b", xpath="/c")'')
       = Inr [''/c'']\<close>
    by code_simp
  have e: \<open>bare_literal ''"", tags=["t"]'' = None\<close>
    by code_simp
  have f: \<open>resolve_path ''"", tags=["t"]'' = ''UNKNOWN''\<close>
    by code_simp
  from a b c d e f show ?thesis by blast
qed

text \<open>
  Claim C10, as amended. An empty quoted string as the path argument, written as
  \<^verbatim>\<open>path=""\<close> (with optional whitespace around the equals sign) anywhere in the
  argument text, or as a bare leading \<^verbatim>\<open>""\<close> or \<^verbatim>\<open>''\<close>, is matched by neither pattern,
  since both require at least one character between the quotes. Such a declaration
  resolves to the sentinel path \<^verbatim>\<open>UNKNOWN\<close> and is not versioned, provided that no
  \<^verbatim>\<open>path=\<close> assignment with a non-empty quoted literal occurs elsewhere in the argument
  text and, for the keyword form, that the argument text does not start with a
  non-empty quoted literal.
\<close>

theorem C10_empty_path_literal:
  "is_quote q \<and> list_all is_space ws1 \<and> list_all is_space ws2 \<longrightarrow>
     (\<forall>v. \<not> path_keyword_at (pre @ ''path'' @ ws1 @ CHR ''='' # ws2 @ q # q # rest)
              (length pre) v)
     \<and> (\<forall>v. \<not> leading_literal (q # q # rest) v)
     \<and> (((args = pre @ ''path'' @ ws1 @ CHR ''='' # ws2 @ q # q # rest
           \<and> (\<forall>n v. n \<noteq> length pre \<longrightarrow> \<not> path_keyword_at args n v)
           \<and> (\<forall>v. \<not> leading_literal args v))
          \<or> (args = q # q # rest \<and> \<not> path_keyword_in args))
         \<longrightarrow> resolve_path args = ''UNKNOWN''
             \<and> \<not> VERSION_PATTERN_search (resolve_path args)
             \<and> (extract_decorator_args content (snd m) = Inr args \<longrightarrow>
                  (\<exists>r. route_of_match f content m = Inr r
                       \<and> path r = ''UNKNOWN'' \<and> \<not> versioned r)))"
proof (intro impI)
  assume h: "is_quote q \<and> list_all is_space ws1 \<and> list_all is_space ws2"
  then have q: "is_quote q" and w1: "list_all is_space ws1" and w2: "list_all is_space ws2"
    by simp_all
  let ?kw = "pre @ ''path'' @ ws1 @ CHR ''='' # ws2 @ q # q # rest"
  have a: "\<forall>v. \<not> path_keyword_at ?kw (length pre) v"
    using empty_keyword_no_match [OF q w1 w2] by blast
  have b: "\<forall>v. \<not> leading_literal (q # q # rest) v"
    using empty_bare_no_match [OF q] by blast
  have c: "((args = ?kw
           \<and> (\<forall>n v. n \<noteq> length pre \<longrightarrow> \<not> path_keyword_at args n v)
           \<and> (\<forall>v. \<not> leading_literal args v))
          \<or> (args = q # q # rest \<and> \<not> path_keyword_in args))
         \<longrightarrow> resolve_path args = ''UNKNOWN''
             \<and> \<not> VERSION_PATTERN_search (resolve_path args)
             \<and> (extract_decorator_args content (snd m) = Inr args \<longrightarrow>
                  (\<exists>r. route_of_match f content m = Inr r
                       \<and> path r = ''UNKNOWN'' \<and> \<not> versioned r))"
  proof
    assume d: "(args = ?kw
           \<and> (\<forall>n v. n \<noteq> length pre \<longrightarrow> \<not> path_keyword_at args n v)
           \<and> (\<forall>v. \<not> leading_literal args v))
          \<or> (args = q # q # rest \<and> \<not> path_keyword_in args)"
    have u: "resolve_path args = ''UNKNOWN''"
      using d
    proof
      assume k: "args = ?kw
           \<and> (\<forall>n v. n \<noteq> length pre \<longrightarrow> \<not> path_keyword_at args n v)
           \<and> (\<forall>v. \<not> leading_literal args v)"
      have "\<not> path_keyword_in args"
      proof
        assume "path_keyword_in args"
        then obtain n v where nv: "path_keyword_at args n v"
          unfolding path_keyword_in_def by blast
        show False
        proof (cases "n = length pre")
          case True
          with nv k a show False by blast
        next
          case False
          with nv k show False by blast
        qed
      qed
      then have npk: "\<not> path_keyword_in args" .
      from k have ll: "\<forall>v. \<not> leading_literal args v" by blast
      show ?thesis by (rule resolve_path_neither [OF npk ll])
    next
      assume k: "args = q # q # rest \<and> \<not> path_keyword_in args"
      then have npk: "\<not> path_keyword_in args" by blast
      from k b have ll: "\<forall>v. \<not> leading_literal args v" by simp
      show ?thesis by (rule resolve_path_neither [OF npk ll])
    qed
    have v: "\<not> VERSION_PATTERN_search (resolve_path args)"
      unfolding u by (rule unknown_not_versioned)
    have w: "extract_decorator_args content (snd m) = Inr args \<longrightarrow>
                  (\<exists>r. route_of_match f content m = Inr r
                       \<and> path r = ''UNKNOWN'' \<and> \<not> versioned r)"
      using unknown_record [OF u] by blast
    from u v w show "resolve_path args = ''UNKNOWN''
             \<and> \<not> VERSION_PATTERN_search (resolve_path args)
             \<and> (extract_decorator_args content (snd m) = Inr args \<longrightarrow>
                  (\<exists>r. route_of_match f content m = Inr r
                       \<and> path r = ''UNKNOWN'' \<and> \<not> versioned r))"
      by blast
  qed
  from a b c show "(\<forall>v. \<not> path_keyword_at ?kw (length pre) v)
     \<and> (\<forall>v. \<not> leading_literal (q # q # rest) v)
     \<and> (((args = ?kw
           \<and> (\<forall>n v. n \<noteq> length pre \<longrightarrow> \<not> path_keyword_at args n v)
           \<and> (\<forall>v. \<not> leading_literal args v))
          \<or> (args = q # q # rest \<and> \<not> path_keyword_in args))
         \<longrightarrow> resolve_path args = ''UNKNOWN''
             \<and> \<not> VERSION_PATTERN_search (resolve_path args)
             \<and> (extract_decorator_args content (snd m) = Inr args \<longrightarrow>
                  (\<exists>r. route_of_match f content m = Inr r
                       \<and> path r = ''UNKNOWN'' \<and> \<not> versioned r)))"
    by blast
qed

theorem C10_empty_path_literal_witness:
  \<open>\<not> path_keyword_in ''tags=["a"], path = "", summary="s"''
   \<and> resolve_path ''tags=["a"], path = "", summary="s"'' = ''UNKNOWN''
   \<and> (\<exists>r. route_of_match ''main.py'' ''@app.get(tags=["a"], path = "", summary="s")''
              (''get'', 9) = Inr r
          \<and> path r = ''UNKNOWN'' \<and> \<not> versioned r)
   \<and> \<not> path_keyword_in (CHR 0x27 # CHR 0x27 # '', summary="s"'')
   \<and> resolve_path (CHR 0x27 # CHR 0x27 # '', summary="s"'') = ''UNKNOWN''\<close>
proof -
  let ?args = \<open>''tags=["a"], path = "", summary="s"''\<close>
  let ?bare = \<open>CHR 0x27 # CHR 0x27 # '', summary="s"''\<close>
  have q: "is_quote (CHR 0x22)" "is_quote (CHR 0x27)" by (simp_all add: is_quote_def)
  have w: "list_all is_space '' ''" by (simp add: is_space_def)
  have eq: \<open>?args = ''tags=["a"], '' @ ''path'' @ '' '' @ CHR ''='' # '' '' @ CHR 0x22 # CHR 0x22 # '', summary="s"''\<close>
    by simp
  have n: \<open>\<not> path_keyword_in ?args\<close>
    unfolding path_keyword_in_iff by code_simp
  then have n': \<open>\<forall>n v. n \<noteq> length ''tags=["a"], '' \<longrightarrow> \<not> path_keyword_at ?args n v\<close>
    unfolding path_keyword_in_def by blast
  have l: \<open>\<forall>v. \<not> leading_literal ?args v\<close>
    unfolding no_leading_literal_iff by code_simp
  have e: \<open>extract_decorator_args ''@app.get(tags=["a"], path = "", summary="s")''
             (snd (''get'', 9 :: nat)) = Inr ?args\<close>
    by code_simp
  have nb: \<open>\<not> path_keyword_in ?bare\<close>
    unfolding path_keyword_in_iff by code_simp
  from q(1) w eq n' l e
    C10_empty_path_literal [of "CHR 0x22" "'' ''" "'' ''" \<open>''tags=["a"], ''\<close>
      \<open>'', summary="s"''\<close> ?args
      \<open>''@app.get(tags=["a"], path = "", summary="s")''\<close> "(''get'', 9)" "''main.py''"]
  have k: \<open>resolve_path ?args = ''UNKNOWN''
     \<and> (\<exists>r. route_of_match ''main.py'' ''@app.get(tags=["a"], path = "", summary="s")''
              (''get'', 9) = Inr r
          \<and> path r = ''UNKNOWN'' \<and> \<not> versioned r)\<close>
    by blast
  from q(2) nb
    C10_empty_path_literal [of "CHR 0x27" "[]" "[]" "[]" \<open>'', summary="s"''\<close> ?bare]
  have b: \<open>resolve_path ?bare = ''UNKNOWN''\<close>
    by simp
  from n k nb b show ?thesis by simp
qed

theorem C10_counterexample:
  \<open>map_sum id (map (\<lambda>r. (path r, versioned r)))
     (analyze_content ''main.py'' ''@app.get(path="", description="use path='/v1/x'")'')
   = Inr [(''/v1/x'', True)]
   \<and> map_sum id (map (\<lambda>r. (path r, versioned r)))
     (analyze_content ''main.py'' ''@app.get("/v1/x", path="")'')
   = Inr [(''/v1/x'', True)]\<close>
  by code_simp



end
